theory Spec2Isabelle
  imports Main
begin

section \<open>Go strings and byte slices\<close>

text \<open>
  A Go \<^verbatim>\<open>string\<close> and a \<^verbatim>\<open>[]byte\<close> are both sequences of bytes; both are modelled
  as \<^typ>\<open>string\<close> (a list of 8-bit \<^typ>\<open>char\<close>). Indexing past the end panics in Go;
  the panic is the value \<open>Inl IndexOutOfRange\<close>.
\<close>

datatype error = IndexOutOfRange

definition byteAt :: "string \<Rightarrow> nat \<Rightarrow> error + char" where
  "byteAt s i = (if i < length s then Inr (s ! i) else Inl IndexOutOfRange)"

text \<open>
  \<^verbatim>\<open>string(jsonFile[i])\<close> converts a \<^verbatim>\<open>byte\<close>, an integer type, to a string: the result is
  the UTF-8 encoding of the code point with that number, one byte below \<open>0x80\<close> and the
  two bytes \<open>0xC0 | b >> 6\<close>, \<open>0x80 | b & 0x3F\<close> from \<open>0x80\<close> on.
\<close>

definition byteToString :: "char \<Rightarrow> string" where
  "byteToString b =
     (if (of_char b :: nat) < 0x80 then [b]
      else [char_of (0xC0 + (of_char b :: nat) div 64), char_of (0x80 + (of_char b :: nat) mod 64)])"

text \<open>
  \<^verbatim>\<open>for _, character := range s\<close> decodes \<open>s\<close> as UTF-8, one code point per iteration.
  A well-formed sequence (shortest form, no surrogate, at most \<open>U+10FFFF\<close>) of width 1 to 4
  yields its code point, and \<^verbatim>\<open>string(character)\<close> encodes it back to the same bytes; any
  other byte yields \<open>U+FFFD\<close> with width 1, and \<^verbatim>\<open>string(character)\<close> is then the three
  bytes \<open>EF BF BD\<close>. \<open>decodeRune\<close> returns \<^verbatim>\<open>string(character)\<close> and the width. The
  loops apply it to what is left of a string while something is left; the equation for the
  empty string is never used by them.
\<close>

definition isCont :: "char \<Rightarrow> bool" where
  "isCont c = (0x80 \<le> (of_char c :: nat) \<and> (of_char c :: nat) \<le> 0xBF)"

definition runeError :: string where
  "runeError = [CHR 0xEF, CHR 0xBF, CHR 0xBD]"

definition secondLo :: "nat \<Rightarrow> nat" where
  "secondLo x = (if x = 0xE0 then 0xA0 else if x = 0xF0 then 0x90 else 0x80)"

definition secondHi :: "nat \<Rightarrow> nat" where
  "secondHi x = (if x = 0xED then 0x9F else if x = 0xF4 then 0x8F else 0xBF)"

definition inRange :: "nat \<Rightarrow> nat \<Rightarrow> char \<Rightarrow> bool" where
  "inRange lo hi c = (lo \<le> (of_char c :: nat) \<and> (of_char c :: nat) \<le> hi)"

fun decodeRune :: "string \<Rightarrow> string \<times> nat" where
  "decodeRune [] = (runeError, 1)"
| "decodeRune (b0 # rest) =
     (let x = (of_char b0 :: nat) in
      if x < 0x80 then ([b0], 1)
      else if 0xC2 \<le> x \<and> x \<le> 0xDF then
        (case rest of
           b1 # _ \<Rightarrow> if isCont b1 then ([b0, b1], 2) else (runeError, 1)
         | _ \<Rightarrow> (runeError, 1))
      else if 0xE0 \<le> x \<and> x \<le> 0xEF then
        (case rest of
           b1 # b2 # _ \<Rightarrow>
             if inRange (secondLo x) (secondHi x) b1 \<and> isCont b2 then ([b0, b1, b2], 3)
             else (runeError, 1)
         | _ \<Rightarrow> (runeError, 1))
      else if 0xF0 \<le> x \<and> x \<le> 0xF4 then
        (case rest of
           b1 # b2 # b3 # _ \<Rightarrow>
             if inRange (secondLo x) (secondHi x) b1 \<and> isCont b2 \<and> isCont b3
             then ([b0, b1, b2, b3], 4)
             else (runeError, 1)
         | _ \<Rightarrow> (runeError, 1))
      else (runeError, 1))"

section \<open>Tokens\<close>

record Token =
  content :: string
  kind :: int

definition ObjectOpen :: int where "ObjectOpen = 11"
definition ObjectClose :: int where "ObjectClose = 12"
definition ArrayOpen :: int where "ArrayOpen = 13"
definition ArrayClose :: int where "ArrayClose = 14"
definition DelimiterPair :: int where "DelimiterPair = 21"
definition DelimiterMember :: int where "DelimiterMember = 22"
definition StringRegular :: int where "StringRegular = 31"
definition StringEscaped :: int where "StringEscaped = 32"
definition StringClose :: int where "StringClose = 33"
definition Number :: int where "Number = 41"
definition LiteralBoolTrue :: int where "LiteralBoolTrue = 51"
definition LiteralBoolFalse :: int where "LiteralBoolFalse = 52"
definition LiteralNull :: int where "LiteralNull = 53"

lemmas kind_defs =
  ObjectOpen_def ObjectClose_def ArrayOpen_def ArrayClose_def DelimiterPair_def
  DelimiterMember_def StringRegular_def StringEscaped_def StringClose_def Number_def
  LiteralBoolTrue_def LiteralBoolFalse_def LiteralNull_def

section \<open>getTokens\<close>

text \<open>
  The local variables of one iteration of the main loop. \<open>isString\<close>,
  \<open>isStringRegular\<close> and \<open>isNumber\<close> select the later phases of the iteration.
\<close>

record scan =
  tokenContent :: string
  tokenKind :: int
  tokenLength :: nat
  isToken :: bool
  isString :: bool
  isStringRegular :: bool
  isNumber :: bool

text \<open>Lines 68-79: the defaults for the character under the cursor.\<close>

definition initScan :: "string \<Rightarrow> scan" where
  "initScan currentCharacter =
     \<lparr>tokenContent = currentCharacter, tokenKind = 0, tokenLength = 1, isToken = True,
      isString = False, isStringRegular = False, isNumber = False\<rparr>"

text \<open>
  Lines 84-112: the previous token decides whether the cursor is inside a string.
  \<^verbatim>\<open>previousContent[len(previousContent)-1]\<close> panics on an empty content: the index is then
  \<open>-1\<close> in Go, and in the model \<open>0\<close>, which is out of range as well.
\<close>

definition checkPrevious :: "Token list \<Rightarrow> string \<Rightarrow> scan \<Rightarrow> error + scan" where
  "checkPrevious tokenArray currentCharacter st =
     (if length tokenArray > 0 then
        (let previousToken = last tokenArray;
             previousKind = kind previousToken;
             previousContent = content previousToken
         in case byteAt previousContent (length previousContent - 1) of
              Inl e \<Rightarrow> Inl e
            | Inr previousByte \<Rightarrow>
                (let previousCharacter = byteToString previousByte in
                 if previousKind = StringRegular then
                   Inr (st\<lparr>isString :=
                     (isString st \<or> previousCharacter \<noteq> [CHR 0x22]
                      \<or> (previousCharacter = [CHR 0x22] \<and> length previousContent = 1))\<rparr>)
                 else if previousKind = StringEscaped then
                   Inr (st\<lparr>isString := True,
                           tokenKind := (if currentCharacter = [CHR 0x22] then StringClose
                                         else tokenKind st)\<rparr>)
                 else Inr st))
      else Inr st)"

text \<open>Lines 116-157: outside a string, one character decides the kind.\<close>

definition classify :: "string \<Rightarrow> scan \<Rightarrow> scan" where
  "classify currentCharacter st =
     (if currentCharacter = ''{'' then st\<lparr>tokenKind := ObjectOpen\<rparr>
      else if currentCharacter = ''}'' then st\<lparr>tokenKind := ObjectClose\<rparr>
      else if currentCharacter = ''['' then st\<lparr>tokenKind := ArrayOpen\<rparr>
      else if currentCharacter = '']'' then st\<lparr>tokenKind := ArrayClose\<rparr>
      else if currentCharacter = '':'' then st\<lparr>tokenKind := DelimiterPair\<rparr>
      else if currentCharacter = '','' then st\<lparr>tokenKind := DelimiterMember\<rparr>
      else if currentCharacter = [CHR 0x22] then
        st\<lparr>tokenKind := StringRegular, isStringRegular := True\<rparr>
      else if currentCharacter = ''-''
              \<or> currentCharacter = ''0''
              \<or> currentCharacter = ''1''
              \<or> currentCharacter = ''2''
              \<or> currentCharacter = ''3''
              \<or> currentCharacter = ''4''
              \<or> currentCharacter = ''5''
              \<or> currentCharacter = ''6''
              \<or> currentCharacter = ''7''
              \<or> currentCharacter = ''8''
              \<or> currentCharacter = ''9'' then
        st\<lparr>tokenKind := Number, isNumber := True\<rparr>
      else if currentCharacter = ''t'' then
        st\<lparr>tokenKind := LiteralBoolTrue, tokenContent := ''true'', tokenLength := 4\<rparr>
      else if currentCharacter = ''f'' then
        st\<lparr>tokenKind := LiteralBoolFalse, tokenContent := ''false'', tokenLength := 5\<rparr>
      else if currentCharacter = ''n'' then
        st\<lparr>tokenKind := LiteralNull, tokenContent := ''null'', tokenLength := 4\<rparr>
      else st\<lparr>isToken := False\<rparr>)"

text \<open>
  Lines 175-179: the loop \<^verbatim>\<open>for j := i + 1; j < (i + 6); j++\<close> of a \<^verbatim>\<open>\u\<close> escape,
  reading \<^verbatim>\<open>jsonFile[j]\<close> at each step.
\<close>

function unicodeRun :: "string \<Rightarrow> nat \<Rightarrow> nat \<Rightarrow> scan \<Rightarrow> error + scan" where
  "unicodeRun jsonFile j stop st =
     (if j < stop then
        (if j < length jsonFile then
           unicodeRun jsonFile (j + 1) stop
             (st\<lparr>tokenContent := tokenContent st @ byteToString (jsonFile ! j),
                 tokenLength := tokenLength st + 1\<rparr>)
         else Inl IndexOutOfRange)
      else Inr st)"
  by pat_completeness auto
termination
  by (relation "measure (\<lambda>(jsonFile, j, stop, st). stop - j)") auto

declare unicodeRun.simps [simp del]

text \<open>Lines 161-191: inside a string, a quote, a backslash or a plain character.\<close>

definition stringPart :: "string \<Rightarrow> nat \<Rightarrow> string \<Rightarrow> scan \<Rightarrow> error + scan" where
  "stringPart jsonFile i currentCharacter st =
     (if currentCharacter = [CHR 0x22] then
        (if tokenKind st \<noteq> StringClose
         then Inr (st\<lparr>tokenKind := StringRegular, isStringRegular := True\<rparr>)
         else Inr st)
      else if currentCharacter = [CHR 0x5C] then
        (case byteAt jsonFile (i + 1) of
           Inl e \<Rightarrow> Inl e
         | Inr nextByte \<Rightarrow>
             if byteToString nextByte = ''u'' then
               unicodeRun jsonFile (i + 1) (i + 6) (st\<lparr>tokenKind := StringEscaped\<rparr>)
             else
               Inr (st\<lparr>tokenKind := StringEscaped,
                       tokenContent := tokenContent st @ byteToString nextByte,
                       tokenLength := tokenLength st + 1\<rparr>))
      else Inr (st\<lparr>tokenKind := StringRegular, isStringRegular := True\<rparr>))"

text \<open>
  Lines 195-211: the plain run of a string, \<^verbatim>\<open>for j := i + 1; !isStringFinished; j++\<close>.
  The loop has no test against \<^verbatim>\<open>len(jsonFile)\<close>: reading \<^verbatim>\<open>jsonFile[j]\<close> panics there.
\<close>

function stringRun :: "string \<Rightarrow> nat \<Rightarrow> scan \<Rightarrow> error + scan" where
  "stringRun jsonFile j st =
     (if j < length jsonFile then
        (if byteToString (jsonFile ! j) = [CHR 0x22] then
           Inr (st\<lparr>tokenContent := tokenContent st @ byteToString (jsonFile ! j),
                   tokenLength := tokenLength st + 1\<rparr>)
         else if byteToString (jsonFile ! j) = [CHR 0x5C] then Inr st
         else stringRun jsonFile (j + 1)
                (st\<lparr>tokenContent := tokenContent st @ byteToString (jsonFile ! j),
                    tokenLength := tokenLength st + 1\<rparr>))
      else Inl IndexOutOfRange)"
  by pat_completeness auto
termination
  by (relation "measure (\<lambda>(jsonFile, j, st). length jsonFile - j)") auto

declare stringRun.simps [simp del]

text \<open>Lines 225-231.\<close>

definition validNextNumCharacter :: "string \<Rightarrow> bool" where
  "validNextNumCharacter s =
     (s = ''-'' \<or> s = ''+'' \<or> s = ''e'' \<or> s = ''E'' \<or> s = ''.''
      \<or> s = ''0'' \<or> s = ''1'' \<or> s = ''2'' \<or> s = ''3'' \<or> s = ''4''
      \<or> s = ''5'' \<or> s = ''6'' \<or> s = ''7'' \<or> s = ''8'' \<or> s = ''9'')"

text \<open>
  Lines 233-242: the run of a number, \<^verbatim>\<open>for j := i + 1; !isNumberFinished; j++\<close>, again
  with no test against \<^verbatim>\<open>len(jsonFile)\<close>.
\<close>

function numberRun :: "string \<Rightarrow> nat \<Rightarrow> scan \<Rightarrow> error + scan" where
  "numberRun jsonFile j st =
     (if j < length jsonFile then
        (if validNextNumCharacter (byteToString (jsonFile ! j)) then
           numberRun jsonFile (j + 1)
             (st\<lparr>tokenContent := tokenContent st @ byteToString (jsonFile ! j),
                 tokenLength := tokenLength st + 1\<rparr>)
         else Inr st)
      else Inl IndexOutOfRange)"
  by pat_completeness auto
termination
  by (relation "measure (\<lambda>(jsonFile, j, st). length jsonFile - j)") auto

declare numberRun.simps [simp del]

text \<open>
  Lines 68-250: one iteration of the main loop at cursor \<open>i < len(jsonFile)\<close>. The result
  is the state of the locals at line 247; \<open>isToken\<close> says whether a token is appended and
  \<open>tokenLength\<close> is the advance of the cursor.
\<close>

definition scanToken :: "string \<Rightarrow> nat \<Rightarrow> Token list \<Rightarrow> error + scan" where
  "scanToken jsonFile i tokenArray =
     (let currentCharacter = byteToString (jsonFile ! i) in
      case checkPrevious tokenArray currentCharacter (initScan currentCharacter) of
        Inl e \<Rightarrow> Inl e
      | Inr st1 \<Rightarrow>
          (case (if \<not> isString st1 then Inr (classify currentCharacter st1)
                 else stringPart jsonFile i currentCharacter st1) of
             Inl e \<Rightarrow> Inl e
           | Inr st2 \<Rightarrow>
               (case (if isStringRegular st2 then stringRun jsonFile (i + 1) st2 else Inr st2) of
                  Inl e \<Rightarrow> Inl e
                | Inr st3 \<Rightarrow>
                    (if isNumber st3 then numberRun jsonFile (i + 1) st3 else Inr st3))))"

definition appendToken :: "Token list \<Rightarrow> scan \<Rightarrow> Token list" where
  "appendToken tokenArray st =
     (if isToken st then tokenArray @ [\<lparr>content = tokenContent st, kind = tokenKind st\<rparr>]
      else tokenArray)"

lemma unicodeRun_tokenLength:
  "unicodeRun jsonFile j stop st = Inr st' \<Longrightarrow> tokenLength st \<le> tokenLength st'"
proof (induction jsonFile j stop st rule: unicodeRun.induct)
  case (1 jsonFile j stop st)
  show ?case
  proof (cases "j < stop \<and> j < length jsonFile")
    case True
    with "1.prems" have "unicodeRun jsonFile (j + 1) stop
        (st\<lparr>tokenContent := tokenContent st @ byteToString (jsonFile ! j),
            tokenLength := tokenLength st + 1\<rparr>) = Inr st'"
      by (simp add: unicodeRun.simps [of jsonFile j])
    with True "1.IH" show ?thesis by fastforce
  next
    case False
    with "1.prems" show ?thesis
      by (auto simp: unicodeRun.simps [of jsonFile j] split: if_splits)
  qed
qed

lemma stringRun_tokenLength:
  "stringRun jsonFile j st = Inr st' \<Longrightarrow> tokenLength st \<le> tokenLength st'"
proof (induction jsonFile j st rule: stringRun.induct)
  case (1 jsonFile j st)
  let ?c = "byteToString (jsonFile ! j)"
  let ?st = "st\<lparr>tokenContent := tokenContent st @ ?c, tokenLength := tokenLength st + 1\<rparr>"
  show ?case
  proof (cases "j < length jsonFile \<and> ?c \<noteq> [CHR 0x22] \<and> ?c \<noteq> [CHR 0x5C]")
    case True
    with "1.prems" have "stringRun jsonFile (j + 1) ?st = Inr st'"
      by (simp add: stringRun.simps [of jsonFile j])
    with True "1.IH" have "tokenLength ?st \<le> tokenLength st'" by blast
    then show ?thesis by simp
  next
    case False
    with "1.prems" show ?thesis
      by (auto simp: stringRun.simps [of jsonFile j] split: if_splits)
  qed
qed

lemma numberRun_tokenLength:
  "numberRun jsonFile j st = Inr st' \<Longrightarrow> tokenLength st \<le> tokenLength st'"
proof (induction jsonFile j st rule: numberRun.induct)
  case (1 jsonFile j st)
  let ?c = "byteToString (jsonFile ! j)"
  let ?st = "st\<lparr>tokenContent := tokenContent st @ ?c, tokenLength := tokenLength st + 1\<rparr>"
  show ?case
  proof (cases "j < length jsonFile \<and> validNextNumCharacter ?c")
    case True
    with "1.prems" have "numberRun jsonFile (j + 1) ?st = Inr st'"
      by (simp add: numberRun.simps [of jsonFile j])
    with True "1.IH" have "tokenLength ?st \<le> tokenLength st'" by blast
    then show ?thesis by simp
  next
    case False
    with "1.prems" show ?thesis
      by (auto simp: numberRun.simps [of jsonFile j] split: if_splits)
  qed
qed

lemma checkPrevious_tokenLength:
  "checkPrevious tokenArray c st = Inr st' \<Longrightarrow> tokenLength st' = tokenLength st"
  by (auto simp: checkPrevious_def Let_def split: if_splits sum.splits)

lemma classify_tokenLength: "1 \<le> tokenLength st \<Longrightarrow> 1 \<le> tokenLength (classify c st)"
  by (simp add: classify_def)

lemma stringPart_tokenLength:
  "stringPart jsonFile i c st = Inr st' \<Longrightarrow> tokenLength st \<le> tokenLength st'"
  by (auto simp: stringPart_def split: if_splits sum.splits dest!: unicodeRun_tokenLength)

lemma scanToken_advances:
  assumes "scanToken jsonFile i tokenArray = Inr st"
  shows "1 \<le> tokenLength st"
proof -
  let ?c = "byteToString (jsonFile ! i)"
  from assms obtain st1 where
    s1: "checkPrevious tokenArray ?c (initScan ?c) = Inr st1"
    by (cases "checkPrevious tokenArray ?c (initScan ?c)") (simp_all add: scanToken_def Let_def)
  let ?p2 = "if \<not> isString st1 then Inr (classify ?c st1) else stringPart jsonFile i ?c st1"
  from assms s1 obtain st2 where s2: "?p2 = Inr st2"
    by (cases ?p2) (simp_all add: scanToken_def Let_def)
  let ?p3 = "if isStringRegular st2 then stringRun jsonFile (i + 1) st2 else Inr st2"
  from assms s1 s2 obtain st3 where s3: "?p3 = Inr st3"
    by (cases ?p3) (simp_all add: scanToken_def Let_def)
  from assms s1 s2 s3 have
    s4: "(if isNumber st3 then numberRun jsonFile (i + 1) st3 else Inr st3) = Inr st"
    by (simp add: scanToken_def Let_def)
  from s1 have "tokenLength st1 = 1"
    by (simp add: checkPrevious_tokenLength initScan_def)
  with s2 have "1 \<le> tokenLength st2"
    using classify_tokenLength [of st1 ?c] stringPart_tokenLength [of jsonFile i ?c st1 st2]
    by (cases "isString st1") auto
  with s3 have "1 \<le> tokenLength st3"
    using stringRun_tokenLength [of jsonFile "i + 1" st2 st3]
    by (cases "isStringRegular st2") auto
  with s4 show ?thesis
    using numberRun_tokenLength [of jsonFile "i + 1" st3 st]
    by (cases "isNumber st3") auto
qed

text \<open>
  Lines 67-255: the main loop \<^verbatim>\<open>for i := 0; i < len(jsonFile); { ...; i += tokenLength }\<close>.
  It ends because every iteration advances the cursor.
\<close>

function getTokens_loop :: "string \<Rightarrow> nat \<Rightarrow> Token list \<Rightarrow> error + Token list" where
  "getTokens_loop jsonFile i tokenArray =
     (if i < length jsonFile then
        (case scanToken jsonFile i tokenArray of
           Inl e \<Rightarrow> Inl e
         | Inr st \<Rightarrow> getTokens_loop jsonFile (i + tokenLength st) (appendToken tokenArray st))
      else Inr tokenArray)"
  by pat_completeness auto
termination
proof (relation "measure (\<lambda>(jsonFile, i, tokenArray). length jsonFile - i)")
  show "wf (measure (\<lambda>(jsonFile, i, tokenArray). length jsonFile - i))"
    by simp
next
  fix jsonFile :: string and i :: nat and tokenArray :: "Token list" and st :: scan
  assume "i < length jsonFile" and "scanToken jsonFile i tokenArray = Inr st"
  then show "((jsonFile, i + tokenLength st, appendToken tokenArray st), jsonFile, i, tokenArray)
      \<in> measure (\<lambda>(jsonFile, i, tokenArray). length jsonFile - i)"
    using scanToken_advances [of jsonFile i tokenArray st] by simp
qed

declare getTokens_loop.simps [simp del]

definition getTokens :: "string \<Rightarrow> error + Token list" where
  "getTokens jsonFile = getTokens_loop jsonFile 0 []"

section \<open>Rendering\<close>





text \<open>Lines 357-368: the \<^verbatim>\<open>switch\<close> on \<^verbatim>\<open>string(character)\<close>.\<close>

definition escapeRune :: "string \<Rightarrow> string" where
  "escapeRune stringToAdd =
     (if stringToAdd = ''<'' then ''&lt;''
      else if stringToAdd = ''>'' then ''&gt;''
      else if stringToAdd = ''&'' then ''&amp;''
      else if stringToAdd = [CHR 0x22] then ''&quot;''
      else if stringToAdd = [CHR 0x27] then ''&apos;''
      else stringToAdd)"

lemma decodeRune_width: "1 \<le> snd (decodeRune s)"
  by (cases s) (auto simp: Let_def split: list.splits)

text \<open>
  Lines 355-370: the loop \<^verbatim>\<open>for _, character := range newString\<close>, on what is left of
  \<open>newString\<close>, with the accumulator \<open>escapedString\<close>.
\<close>

function escapeString_loop :: "string \<Rightarrow> string \<Rightarrow> string" where
  "escapeString_loop newString escapedString =
     (if newString = [] then escapedString
      else escapeString_loop (drop (snd (decodeRune newString)) newString)
             (escapedString @ escapeRune (fst (decodeRune newString))))"
  by pat_completeness auto
termination
proof (relation "measure (\<lambda>(newString, escapedString). length newString)")
  show "wf (measure (\<lambda>(newString, escapedString). length newString))"
    by simp
next
  fix newString escapedString :: string
  assume "newString \<noteq> []"
  then show "((drop (snd (decodeRune newString)) newString,
               escapedString @ escapeRune (fst (decodeRune newString))),
              newString, escapedString)
      \<in> measure (\<lambda>(newString, escapedString). length newString)"
    using decodeRune_width [of newString] by simp
qed

declare escapeString_loop.simps [simp del]

definition escapeString :: "Token \<Rightarrow> string" where
  "escapeString token = escapeString_loop (content token) []"




text \<open>
  The number of characters of a string, as \<^verbatim>\<open>utf8.RuneCountInString\<close> counts them: one per
  step of the decoder.
\<close>

function runeCount :: "string \<Rightarrow> nat" where
  "runeCount s = (if s = [] then 0 else 1 + runeCount (drop (snd (decodeRune s)) s))"
  by pat_completeness auto
termination
proof (relation "measure length")
  show "wf (measure length)"
    by simp
next
  fix s :: string
  assume "s \<noteq> []"
  then show "(drop (snd (decodeRune s)) s, s) \<in> measure length"
    using decodeRune_width [of s] by simp
qed

declare runeCount.simps [simp del]

text \<open>
  The form of the content of an escape, for the proofs: the backslash, then the bytes read
  after it, each as \<^verbatim>\<open>string(byte)\<close> gives it, five of them when the first is \<^verbatim>\<open>u\<close> and
  one otherwise.
\<close>

definition escapeContent :: "string \<Rightarrow> bool" where
  "escapeContent s =
     (\<exists>bytes. s = CHR 0x5C # concat (map byteToString bytes)
        \<and> length bytes = (if hd bytes = CHR ''u'' then 5 else 1))"

text \<open>
  The three ways in which the end of the input cuts a token off at the cursor \<open>i\<close>, where
  \<open>st1\<close> holds the locals after the look at the previous token (line 112): a number that
  starts at \<open>i\<close> with only number characters after it; a plain run that starts at \<open>i\<close>
  with neither a quote nor a backslash after it; a backslash at \<open>i\<close> with nothing after it,
  or with \<^verbatim>\<open>u\<close> and fewer than six bytes left.
\<close>

definition cutOff :: "string \<Rightarrow> nat \<Rightarrow> scan \<Rightarrow> bool" where
  "cutOff jsonFile i st1 =
     ((\<not> isString st1 \<and> (jsonFile ! i = CHR ''-'' \<or> jsonFile ! i \<in> set ''0123456789'')
          \<and> set (drop (i + 1) jsonFile) \<subseteq> {c. validNextNumCharacter (byteToString c)})
       \<or> (((\<not> isString st1 \<and> jsonFile ! i = CHR 0x22)
             \<or> (isString st1 \<and> jsonFile ! i \<noteq> CHR 0x5C \<and> tokenKind st1 \<noteq> StringClose))
          \<and> CHR 0x22 \<notin> set (drop (i + 1) jsonFile) \<and> CHR 0x5C \<notin> set (drop (i + 1) jsonFile))
       \<or> (isString st1 \<and> jsonFile ! i = CHR 0x5C
          \<and> (length jsonFile \<le> i + 1
              \<or> (jsonFile ! (i + 1) = CHR ''u'' \<and> length jsonFile < i + 6))))"



section \<open>Properties of the decoder and of the escaping loop\<close>

lemma decodeRune_drop_shorter: "s \<noteq> [] \<Longrightarrow> length (drop (snd (decodeRune s)) s) < length s"
  using decodeRune_width [of s] by simp

lemma escapeString_loop_acc:
  "escapeString_loop s acc = acc @ escapeString_loop s []"
proof (induction "length s" arbitrary: s acc rule: less_induct)
  case less
  show ?case
  proof (cases "s = []")
    case True
    then show ?thesis by (simp add: escapeString_loop.simps [of "[]"])
  next
    case False
    let ?rest = "drop (snd (decodeRune s)) s"
    let ?r = "escapeRune (fst (decodeRune s))"
    have shorter: "length ?rest < length s"
      using False by (rule decodeRune_drop_shorter)
    have "escapeString_loop s acc = escapeString_loop ?rest (acc @ ?r)"
      using False by (simp add: escapeString_loop.simps [of s])
    also have "\<dots> = (acc @ ?r) @ escapeString_loop ?rest []"
      using less [OF shorter] .
    also have "\<dots> = acc @ escapeString_loop ?rest ([] @ ?r)"
      using less [OF shorter, of "[] @ ?r"] by simp
    also have "escapeString_loop ?rest ([] @ ?r) = escapeString_loop s []"
      using False by (simp add: escapeString_loop.simps [of s])
    finally show ?thesis .
  qed
qed

lemma escapeString_loop_step:
  "s \<noteq> [] \<Longrightarrow> escapeString_loop s [] =
     escapeRune (fst (decodeRune s)) @ escapeString_loop (drop (snd (decodeRune s)) s) []"
  using escapeString_loop_acc [of "drop (snd (decodeRune s)) s" "escapeRune (fst (decodeRune s))"]
  by (simp add: escapeString_loop.simps [of s])

lemma runeError_high: "c \<in> set runeError \<Longrightarrow> 0x80 \<le> (of_char c :: nat)"
  by (auto simp: runeError_def)

lemma secondLo_high: "0x80 \<le> secondLo x"
  by (simp add: secondLo_def)

lemma inRange_high: "inRange (secondLo x) hi c \<Longrightarrow> 0x80 \<le> (of_char c :: nat)"
  using secondLo_high [of x] by (simp add: inRange_def)

lemma isCont_high: "isCont c \<Longrightarrow> 0x80 \<le> (of_char c :: nat)"
  by (simp add: isCont_def)

lemma decodeRune_ascii:
  "(of_char b0 :: nat) < 0x80 \<Longrightarrow> decodeRune (b0 # rest) = ([b0], 1)"
  by (simp add: Let_def)

lemma decodeRune_two:
  "0xC2 \<le> (of_char b0 :: nat) \<Longrightarrow> (of_char b0 :: nat) \<le> 0xDF \<Longrightarrow>
   decodeRune (b0 # rest) =
     (case rest of b1 # _ \<Rightarrow> if isCont b1 then ([b0, b1], 2) else (runeError, 1)
      | _ \<Rightarrow> (runeError, 1))"
  by (simp add: Let_def)

lemma decodeRune_three:
  "0xE0 \<le> (of_char b0 :: nat) \<Longrightarrow> (of_char b0 :: nat) \<le> 0xEF \<Longrightarrow>
   decodeRune (b0 # rest) =
     (case rest of
        b1 # b2 # _ \<Rightarrow>
          if inRange (secondLo (of_char b0)) (secondHi (of_char b0)) b1 \<and> isCont b2
          then ([b0, b1, b2], 3) else (runeError, 1)
      | _ \<Rightarrow> (runeError, 1))"
  by (simp add: Let_def)

lemma decodeRune_four:
  "0xF0 \<le> (of_char b0 :: nat) \<Longrightarrow> (of_char b0 :: nat) \<le> 0xF4 \<Longrightarrow>
   decodeRune (b0 # rest) =
     (case rest of
        b1 # b2 # b3 # _ \<Rightarrow>
          if inRange (secondLo (of_char b0)) (secondHi (of_char b0)) b1 \<and> isCont b2 \<and> isCont b3
          then ([b0, b1, b2, b3], 4) else (runeError, 1)
      | _ \<Rightarrow> (runeError, 1))"
  by (simp add: Let_def)

lemma decodeRune_other:
  "0x80 \<le> (of_char b0 :: nat) \<Longrightarrow> (of_char b0 :: nat) < 0xC2 \<or> 0xF4 < (of_char b0 :: nat) \<Longrightarrow>
   decodeRune (b0 # rest) = (runeError, 1)"
  by (auto simp: Let_def)


declare decodeRune.simps [simp del]

lemma decodeRune_cases:
  assumes "s \<noteq> []"
  obtains (ascii) "(of_char (hd s) :: nat) < 0x80" "decodeRune s = ([hd s], 1)"
  | (multi) r where "decodeRune s = (r, length r)" "r = take (length r) s" "2 \<le> length r"
      "length r \<le> length s"
      "\<forall>c \<in> set r. 0x80 \<le> (of_char c :: nat)" "\<forall>t. decodeRune (r @ t) = (r, length r)"
  | (invalid) "decodeRune s = (runeError, 1)"
proof -
  from assms obtain b0 rest where s: "s = b0 # rest" by (cases s) auto
  let ?x = "of_char b0 :: nat"
  consider (a) "?x < 0x80" | (b) "0xC2 \<le> ?x" "?x \<le> 0xDF" | (c) "0xE0 \<le> ?x" "?x \<le> 0xEF"
    | (d) "0xF0 \<le> ?x" "?x \<le> 0xF4" | (e) "0x80 \<le> ?x" "?x < 0xC2 \<or> 0xF4 < ?x"
    by linarith
  then show ?thesis
  proof cases
    case a
    then show ?thesis using s by (intro ascii) (simp_all add: decodeRune_ascii)
  next
    case b
    note two = decodeRune_two [OF b]
    show ?thesis
    proof (cases rest)
      case Nil
      then have "decodeRune s = (runeError, 1)" using s by (simp add: two)
      then show ?thesis by (rule invalid)
    next
      case (Cons b1 t)
      show ?thesis
      proof (cases "isCont b1")
        case True
        have "decodeRune s = ([b0, b1], length [b0, b1])"
          using s Cons True by (simp add: two)
        moreover have "\<forall>c \<in> set [b0, b1]. 0x80 \<le> (of_char c :: nat)"
          using b True by (simp add: isCont_def)
        moreover have "\<forall>t'. decodeRune ([b0, b1] @ t') = ([b0, b1], length [b0, b1])"
          using True by (simp add: two)
        ultimately show ?thesis using s Cons by (intro multi [of "[b0, b1]"]) simp_all
      next
        case False
        then have "decodeRune s = (runeError, 1)" using s Cons by (simp add: two)
        then show ?thesis by (rule invalid)
      qed
    qed
  next
    case c
    note three = decodeRune_three [OF c]
    show ?thesis
    proof (cases "\<exists>b1 b2 t. rest = b1 # b2 # t
        \<and> inRange (secondLo ?x) (secondHi ?x) b1 \<and> isCont b2")
      case True
      then obtain b1 b2 t where r: "rest = b1 # b2 # t"
        and ok: "inRange (secondLo ?x) (secondHi ?x) b1" "isCont b2" by blast
      have "decodeRune s = ([b0, b1, b2], length [b0, b1, b2])"
        using s r ok by (simp add: three)
      moreover have "\<forall>c \<in> set [b0, b1, b2]. 0x80 \<le> (of_char c :: nat)"
        using c ok inRange_high [of ?x _ b1] by (simp add: isCont_def)
      moreover have "\<forall>t'. decodeRune ([b0, b1, b2] @ t') = ([b0, b1, b2], length [b0, b1, b2])"
        using ok by (simp add: three)
      ultimately show ?thesis using s r by (intro multi [of "[b0, b1, b2]"]) simp_all
    next
      case False
      then have "decodeRune s = (runeError, 1)"
        using s by (auto simp: three split: list.splits)
      then show ?thesis by (rule invalid)
    qed
  next
    case d
    note four = decodeRune_four [OF d]
    show ?thesis
    proof (cases "\<exists>b1 b2 b3 t. rest = b1 # b2 # b3 # t
        \<and> inRange (secondLo ?x) (secondHi ?x) b1 \<and> isCont b2 \<and> isCont b3")
      case True
      then obtain b1 b2 b3 t where r: "rest = b1 # b2 # b3 # t"
        and ok: "inRange (secondLo ?x) (secondHi ?x) b1" "isCont b2" "isCont b3" by blast
      have "decodeRune s = ([b0, b1, b2, b3], length [b0, b1, b2, b3])"
        using s r ok by (simp add: four)
      moreover have "\<forall>c \<in> set [b0, b1, b2, b3]. 0x80 \<le> (of_char c :: nat)"
        using d ok inRange_high [of ?x _ b1] by (simp add: isCont_def)
      moreover have "\<forall>t'. decodeRune ([b0, b1, b2, b3] @ t')
          = ([b0, b1, b2, b3], length [b0, b1, b2, b3])"
        using ok by (simp add: four)
      ultimately show ?thesis using s r by (intro multi [of "[b0, b1, b2, b3]"]) simp_all
    next
      case False
      then have "decodeRune s = (runeError, 1)"
        using s by (auto simp: four split: list.splits)
      then show ?thesis by (rule invalid)
    qed
  next
    case e
    then have "decodeRune s = (runeError, 1)" using s by (simp add: decodeRune_other)
    then show ?thesis by (rule invalid)
  qed
qed

lemma decodeRune_runeError: "decodeRune (runeError @ t) = (runeError, 3)"
  by (simp add: runeError_def decodeRune_three secondLo_def secondHi_def inRange_def isCont_def)

lemma escapeRune_long: "2 \<le> length r \<Longrightarrow> escapeRune r = r"
  by (auto simp: escapeRune_def)

lemma high_plain:
  "0x80 \<le> (of_char c :: nat) \<Longrightarrow>
   c \<noteq> CHR ''<'' \<and> c \<noteq> CHR ''>'' \<and> c \<noteq> CHR ''&'' \<and> c \<noteq> CHR 0x22 \<and> c \<noteq> CHR 0x27"
  by auto

lemma escapeRune_single:
  "c' \<in> set (escapeRune [c]) \<Longrightarrow>
   c' \<noteq> CHR ''<'' \<and> c' \<noteq> CHR ''>'' \<and> c' \<noteq> CHR 0x22 \<and> c' \<noteq> CHR 0x27"
  by (auto simp: escapeRune_def split: if_splits)
lemma escapeString_loop_lt: "escapeString_loop ''<'' [] = ''&lt;''"
  by code_simp

lemma escapeRune_runeError: "escapeRune runeError = runeError"
  by (simp add: escapeRune_long runeError_def)


lemma escapeRune_decodeRune_clean:
  assumes "s \<noteq> []" and "c \<in> set (escapeRune (fst (decodeRune s)))"
  shows "c \<noteq> CHR ''<'' \<and> c \<noteq> CHR ''>'' \<and> c \<noteq> CHR 0x22 \<and> c \<noteq> CHR 0x27"
  using assms(1)
proof (cases rule: decodeRune_cases)
  case ascii
  with assms(2) show ?thesis using escapeRune_single [of c "hd s"] by simp
next
  case (multi r)
  with assms(2) have "c \<in> set r" by (simp add: escapeRune_long)
  with multi(5) show ?thesis using high_plain [of c] by blast
next
  case invalid
  with assms(2) have "c \<in> set runeError" by (simp add: escapeRune_runeError)
  then show ?thesis using high_plain [of c] runeError_high [of c] by blast
qed


lemma escapeString_loop_clean:
  "c \<in> set (escapeString_loop s []) \<Longrightarrow>
   c \<noteq> CHR ''<'' \<and> c \<noteq> CHR ''>'' \<and> c \<noteq> CHR 0x22 \<and> c \<noteq> CHR 0x27"
proof (induction "length s" arbitrary: s rule: less_induct)
  case less
  show ?case
  proof (cases "s = []")
    case True
    with less.prems show ?thesis by (simp add: escapeString_loop.simps [of "[]"])
  next
    case False
    let ?rest = "drop (snd (decodeRune s)) s"
    from less.prems
    have "c \<in> set (escapeRune (fst (decodeRune s))) \<or> c \<in> set (escapeString_loop ?rest [])"
      unfolding escapeString_loop_step [OF False] by simp
    then show ?thesis
    proof
      assume "c \<in> set (escapeRune (fst (decodeRune s)))"
      with False show ?thesis by (rule escapeRune_decodeRune_clean)
    next
      assume "c \<in> set (escapeString_loop ?rest [])"
      with less.hyps [OF decodeRune_drop_shorter [OF False]] show ?thesis by blast
    qed
  qed
qed


lemma decodeRune_plain_chunk:
  assumes "s \<noteq> []"
    and "\<forall>c \<in> set s. c \<noteq> CHR ''<'' \<and> c \<noteq> CHR ''>'' \<and> c \<noteq> CHR ''&'' \<and> c \<noteq> CHR 0x22 \<and> c \<noteq> CHR 0x27"
  shows "escapeRune (fst (decodeRune s)) = fst (decodeRune s)
    \<and> (\<forall>c \<in> set (fst (decodeRune s)).
          c \<noteq> CHR ''<'' \<and> c \<noteq> CHR ''>'' \<and> c \<noteq> CHR ''&'' \<and> c \<noteq> CHR 0x22 \<and> c \<noteq> CHR 0x27)
    \<and> (\<forall>t. decodeRune (fst (decodeRune s) @ t)
          = (fst (decodeRune s), length (fst (decodeRune s))))"
  using assms(1)
proof (cases rule: decodeRune_cases)
  case ascii
  from assms have "hd s \<in> set s" by simp
  with assms(2) have plain: "hd s \<noteq> CHR ''<'' \<and> hd s \<noteq> CHR ''>'' \<and> hd s \<noteq> CHR ''&''
      \<and> hd s \<noteq> CHR 0x22 \<and> hd s \<noteq> CHR 0x27" by blast
  then have "escapeRune [hd s] = [hd s]" by (simp add: escapeRune_def)
  with ascii plain show ?thesis by (simp add: decodeRune_ascii)
next
  case (multi r)
  then show ?thesis using high_plain by (simp add: escapeRune_long)
next
  case invalid
  then show ?thesis
    using high_plain runeError_high
    by (simp add: escapeRune_runeError decodeRune_runeError) (simp add: runeError_def)
qed


lemma escapeString_loop_plain_idem:
  assumes "\<forall>c \<in> set s. c \<noteq> CHR ''<'' \<and> c \<noteq> CHR ''>'' \<and> c \<noteq> CHR ''&'' \<and> c \<noteq> CHR 0x22 \<and> c \<noteq> CHR 0x27"
  shows "escapeString_loop (escapeString_loop s []) [] = escapeString_loop s []"
  using assms
proof (induction "length s" arbitrary: s rule: less_induct)
  case less
  show ?case
  proof (cases "s = []")
    case True
    then show ?thesis by (simp add: escapeString_loop.simps [of "[]"])
  next
    case False
    let ?r = "fst (decodeRune s)"
    let ?rest = "drop (snd (decodeRune s)) s"
    note chunk = decodeRune_plain_chunk [OF False less.prems]
    have "\<forall>c \<in> set ?rest. c \<noteq> CHR ''<'' \<and> c \<noteq> CHR ''>'' \<and> c \<noteq> CHR ''&''
        \<and> c \<noteq> CHR 0x22 \<and> c \<noteq> CHR 0x27"
      using less.prems by (meson in_set_dropD)
    with less.hyps [OF decodeRune_drop_shorter [OF False]]
    have IH: "escapeString_loop (escapeString_loop ?rest []) [] = escapeString_loop ?rest []"
      by blast
    have r_ne: "?r \<noteq> []"
      using chunk decodeRune_width [of "?r @ []"] by (metis One_nat_def Suc_le_lessD length_greater_0_conv snd_conv)
    have step: "escapeString_loop s [] = ?r @ escapeString_loop ?rest []"
      using chunk unfolding escapeString_loop_step [OF False] by simp
    have "?r @ escapeString_loop ?rest [] \<noteq> []"
      using r_ne by simp
    from escapeString_loop_step [OF this]
    have "escapeString_loop (?r @ escapeString_loop ?rest []) []
        = escapeRune ?r @ escapeString_loop (escapeString_loop ?rest []) []"
      using chunk by simp
    with step IH chunk show ?thesis by simp
  qed
qed

section \<open>The tokenizer on the documented inputs\<close>

text \<open>
  Claim C2, as stated: \<^verbatim>\<open>{"a":1,"b":[true,null]}\<close> tokenizes into fifteen tokens, each
  string being an opening-quote token followed by a content token. The code returns another
  sequence of kinds.
\<close>

theorem getTokens_object_fifteen_kinds_counterexample:
  "map_sum id (map kind) (getTokens ''{\"a\":1,\"b\":[true,null]}'') \<noteq>
     Inr [ObjectOpen, StringRegular, StringRegular, DelimiterPair, Number, DelimiterMember,
          StringRegular, StringRegular, DelimiterPair, ArrayOpen, LiteralBoolTrue,
          DelimiterMember, LiteralNull, ArrayClose, ObjectClose]"
  by code_simp

text \<open>
  Claim C2, amended: \<^verbatim>\<open>{"a":1,"b":[true,null]}\<close> tokenizes into exactly thirteen tokens,
  of kinds ObjectOpen, StringRegular, DelimiterPair, Number, DelimiterMember, StringRegular,
  DelimiterPair, ArrayOpen, LiteralBoolTrue, DelimiterMember, LiteralNull, ArrayClose,
  ObjectClose: each of the two strings \<^verbatim>\<open>"a"\<close> and \<^verbatim>\<open>"b"\<close> is one StringRegular token
  holding both quotes.
\<close>

theorem getTokens_object_thirteen_tokens:
  "getTokens ''{\"a\":1,\"b\":[true,null]}'' =
     Inr [\<lparr>content = ''{'', kind = ObjectOpen\<rparr>,
          \<lparr>content = ''\"a\"'', kind = StringRegular\<rparr>,
          \<lparr>content = '':'', kind = DelimiterPair\<rparr>,
          \<lparr>content = ''1'', kind = Number\<rparr>,
          \<lparr>content = '','', kind = DelimiterMember\<rparr>,
          \<lparr>content = ''\"b\"'', kind = StringRegular\<rparr>,
          \<lparr>content = '':'', kind = DelimiterPair\<rparr>,
          \<lparr>content = ''['', kind = ArrayOpen\<rparr>,
          \<lparr>content = ''true'', kind = LiteralBoolTrue\<rparr>,
          \<lparr>content = '','', kind = DelimiterMember\<rparr>,
          \<lparr>content = ''null'', kind = LiteralNull\<rparr>,
          \<lparr>content = '']'', kind = ArrayClose\<rparr>,
          \<lparr>content = ''}'', kind = ObjectClose\<rparr>]
   \<and> map_sum id (map kind) (getTokens ''{\"a\":1,\"b\":[true,null]}'') =
     Inr [ObjectOpen, StringRegular, DelimiterPair, Number, DelimiterMember, StringRegular,
          DelimiterPair, ArrayOpen, LiteralBoolTrue, DelimiterMember, LiteralNull, ArrayClose,
          ObjectClose]"
  by code_simp

text \<open>
  Claim C3: the eight bytes \<^verbatim>\<open>-12.5e+3\<close> should give one Number token. The number loop of
  the code reads \<^verbatim>\<open>jsonFile[8]\<close> after the last digit and panics: no token is returned.
\<close>

theorem getTokens_bare_number_panics:
  "getTokens ''-12.5e+3'' = Inl IndexOutOfRange"
  by code_simp

text \<open>
  Claim C6: the contents of the tokens, concatenated, should give back the input without
  its whitespace. On the valid JSON text \<^verbatim>\<open>["e-acute"]\<close>, whose string holds the two
  UTF-8 bytes \<open>C3 A9\<close>, each of the two bytes is converted by \<^verbatim>\<open>string(byte)\<close> into a
  two-byte character of its own, and the concatenation is not the input.
\<close>

theorem getTokens_non_ascii_not_preserved:
  "getTokens [CHR ''['', CHR 0x22, CHR 0xC3, CHR 0xA9, CHR 0x22, CHR '']''] =
     Inr [\<lparr>content = ''['', kind = ArrayOpen\<rparr>,
          \<lparr>content = [CHR 0x22, CHR 0xC3, CHR 0x83, CHR 0xC2, CHR 0xA9, CHR 0x22],
           kind = StringRegular\<rparr>,
          \<lparr>content = '']'', kind = ArrayClose\<rparr>]
   \<and> map_sum id (\<lambda>ts. concat (map content ts))
         (getTokens [CHR ''['', CHR 0x22, CHR 0xC3, CHR 0xA9, CHR 0x22, CHR '']'']) \<noteq>
       Inr [CHR ''['', CHR 0x22, CHR 0xC3, CHR 0xA9, CHR 0x22, CHR '']'']"
  by code_simp




section \<open>HTML escaping\<close>

text \<open>
  Claim C10: for every token content, the output of \<open>escapeString\<close> contains none of the
  characters \<^verbatim>\<open><\<close>, \<^verbatim>\<open>>\<close>, \<^verbatim>\<open>"\<close> and \<^verbatim>\<open>'\<close>; it may contain \<^verbatim>\<open>&\<close>, which the
  entities bring in (as on the content \<^verbatim>\<open><\<close>).
\<close>

theorem escapeString_output_clean:
  "CHR ''<'' \<notin> set (escapeString token) \<and> CHR ''>'' \<notin> set (escapeString token)
   \<and> CHR 0x22 \<notin> set (escapeString token) \<and> CHR 0x27 \<notin> set (escapeString token)
   \<and> CHR ''&'' \<in> set (escapeString (token\<lparr>content := ''<''\<rparr>))"
proof -
  have clean: "c \<in> set (escapeString token) \<Longrightarrow>
      c \<noteq> CHR ''<'' \<and> c \<noteq> CHR ''>'' \<and> c \<noteq> CHR 0x22 \<and> c \<noteq> CHR 0x27" for c
    unfolding escapeString_def by (rule escapeString_loop_clean)
  have amp: "CHR ''&'' \<in> set (escapeString (token\<lparr>content := ''<''\<rparr>))"
    by (simp add: escapeString_def escapeString_loop_lt)
  from clean [of "CHR ''<''"] have 1: "CHR ''<'' \<notin> set (escapeString token)" by blast
  from clean [of "CHR ''>''"] have 2: "CHR ''>'' \<notin> set (escapeString token)" by blast
  from clean [of "CHR 0x22"] have 3: "CHR 0x22 \<notin> set (escapeString token)" by blast
  from clean [of "CHR 0x27"] have 4: "CHR 0x27 \<notin> set (escapeString token)" by blast
  from 1 2 3 4 amp show ?thesis by (intro conjI)
qed

text \<open>
  Claim C8: on a content with none of the five characters \<^verbatim>\<open><\<close>, \<^verbatim>\<open>>\<close>, \<^verbatim>\<open>&\<close>, \<^verbatim>\<open>"\<close>,
  \<^verbatim>\<open>'\<close>, escaping the escaped content gives the escaped content again.
\<close>

theorem escapeString_idempotent:
  assumes "set (content token) \<inter> {CHR ''<'', CHR ''>'', CHR ''&'', CHR 0x22, CHR 0x27} = {}"
  shows "escapeString (token\<lparr>content := escapeString token\<rparr>) = escapeString token"
proof -
  from assms have "\<forall>c \<in> set (content token).
      c \<noteq> CHR ''<'' \<and> c \<noteq> CHR ''>'' \<and> c \<noteq> CHR ''&'' \<and> c \<noteq> CHR 0x22 \<and> c \<noteq> CHR 0x27"
    by blast
  from escapeString_loop_plain_idem [OF this] show ?thesis
    by (simp add: escapeString_def)
qed

text \<open>
  The hypothesis of C8 holds of the content \<open>61 C3 A9 FF 7B\<close>, whose byte \<open>FF\<close> is not
  UTF-8 and is printed as \<open>U+FFFD\<close>; escaping the result changes nothing.
\<close>

theorem escapeString_idempotent_witness:
  "set (content \<lparr>content = [CHR ''a'', CHR 0xC3, CHR 0xA9, CHR 0xFF, CHR ''{''], kind = StringRegular\<rparr>)
     \<inter> {CHR ''<'', CHR ''>'', CHR ''&'', CHR 0x22, CHR 0x27} = {}
   \<and> escapeString \<lparr>content = [CHR ''a'', CHR 0xC3, CHR 0xA9, CHR 0xFF, CHR ''{''], kind = StringRegular\<rparr>
       = [CHR ''a'', CHR 0xC3, CHR 0xA9, CHR 0xEF, CHR 0xBF, CHR 0xBD, CHR ''{'']
   \<and> escapeString \<lparr>content = [CHR ''a'', CHR 0xC3, CHR 0xA9, CHR 0xEF, CHR 0xBF, CHR 0xBD, CHR ''{''], kind = StringRegular\<rparr>
       = [CHR ''a'', CHR 0xC3, CHR 0xA9, CHR 0xEF, CHR 0xBF, CHR 0xBD, CHR ''{'']"
proof -
  let ?t = "\<lparr>content = [CHR ''a'', CHR 0xC3, CHR 0xA9, CHR 0xFF, CHR ''{''], kind = StringRegular\<rparr>"
  have h: "set (content ?t) \<inter> {CHR ''<'', CHR ''>'', CHR ''&'', CHR 0x22, CHR 0x27} = {}"
    by simp
  have e: "escapeString ?t = [CHR ''a'', CHR 0xC3, CHR 0xA9, CHR 0xEF, CHR 0xBF, CHR 0xBD, CHR ''{'']"
    by code_simp
  from escapeString_idempotent [OF h] e h show ?thesis by simp
qed

section \<open>Whitespace around closing brackets\<close>




section \<open>Properties of the loops of the tokenizer\<close>

lemma byteToString_single:
  "(of_char c :: nat) < 0x80 \<Longrightarrow> (byteToString b = [c]) = (b = c)"
  by (auto simp: byteToString_def)

lemma byteToString_quote [simp]: "(byteToString b = [CHR 0x22]) = (b = CHR 0x22)"
  by (rule byteToString_single) simp

lemma byteToString_backslash [simp]: "(byteToString b = [CHR 0x5C]) = (b = CHR 0x5C)"
  by (rule byteToString_single) simp

lemma byteToString_not_empty [simp]: "byteToString b \<noteq> []"
  by (simp add: byteToString_def)


lemma stringRun_fails:
  "(stringRun jsonFile j st = Inl IndexOutOfRange) =
     (CHR 0x22 \<notin> set (drop j jsonFile) \<and> CHR 0x5C \<notin> set (drop j jsonFile))"
proof (induction jsonFile j st rule: stringRun.induct)
  case (1 jsonFile j st)
  show ?case
  proof (cases "j < length jsonFile")
    case False
    then show ?thesis by (simp add: stringRun.simps [of jsonFile j])
  next
    case True
    then have d: "drop j jsonFile = jsonFile ! j # drop (j + 1) jsonFile"
      by (simp add: Cons_nth_drop_Suc)
    show ?thesis
    proof (cases "jsonFile ! j = CHR 0x22 \<or> jsonFile ! j = CHR 0x5C")
      case True
      with \<open>j < length jsonFile\<close> d show ?thesis
        by (auto simp: stringRun.simps [of jsonFile j])
    next
      case False
      with \<open>j < length jsonFile\<close> "1.IH" d show ?thesis
        by (auto simp: stringRun.simps [of jsonFile j])
    qed
  qed
qed

lemma numberRun_fails:
  "(numberRun jsonFile j st = Inl IndexOutOfRange) =
     (\<forall>c \<in> set (drop j jsonFile). validNextNumCharacter (byteToString c))"
proof (induction jsonFile j st rule: numberRun.induct)
  case (1 jsonFile j st)
  show ?case
  proof (cases "j < length jsonFile")
    case False
    then show ?thesis by (simp add: numberRun.simps [of jsonFile j])
  next
    case True
    then have d: "drop j jsonFile = jsonFile ! j # drop (j + 1) jsonFile"
      by (simp add: Cons_nth_drop_Suc)
    show ?thesis
    proof (cases "validNextNumCharacter (byteToString (jsonFile ! j))")
      case True
      with \<open>j < length jsonFile\<close> "1.IH" d show ?thesis
        by (simp add: numberRun.simps [of jsonFile j])
    next
      case False
      with \<open>j < length jsonFile\<close> d show ?thesis
        by (simp add: numberRun.simps [of jsonFile j])
    qed
  qed
qed

lemma unicodeRun_fails:
  "(unicodeRun jsonFile j stop st = Inl IndexOutOfRange) = (j < stop \<and> length jsonFile < stop)"
proof (induction jsonFile j stop st rule: unicodeRun.induct)
  case (1 jsonFile j stop st)
  show ?case
  proof (cases "j < stop \<and> j < length jsonFile")
    case True
    with "1.IH" show ?thesis
      by (simp add: unicodeRun.simps [of jsonFile j]) linarith
  next
    case False
    then show ?thesis
      by (auto simp: unicodeRun.simps [of jsonFile j])
  qed
qed



lemma classify_quote:
  "classify [CHR 0x22] st = st\<lparr>tokenKind := StringRegular, isStringRegular := True\<rparr>"
  by (simp add: classify_def)


lemma scanToken_unfold:
  assumes "c = byteToString (jsonFile ! i)"
    and "checkPrevious tokenArray c (initScan c) = Inr st1"
  shows "scanToken jsonFile i tokenArray =
     (case (if \<not> isString st1 then Inr (classify c st1) else stringPart jsonFile i c st1) of
        Inl e \<Rightarrow> Inl e
      | Inr st2 \<Rightarrow>
          (case (if isStringRegular st2 then stringRun jsonFile (i + 1) st2 else Inr st2) of
             Inl e \<Rightarrow> Inl e
           | Inr st3 \<Rightarrow> (if isNumber st3 then numberRun jsonFile (i + 1) st3 else Inr st3)))"
  by (simp only: scanToken_def Let_def assms(1) [symmetric] assms(2) sum.case)

lemma checkPrevious_keeps:
  assumes "checkPrevious tokenArray c st = Inr st1"
  shows "tokenContent st1 = tokenContent st" and "tokenLength st1 = tokenLength st"
    and "isToken st1 = isToken st" and "isStringRegular st1 = isStringRegular st"
    and "isNumber st1 = isNumber st"
  using assms by (auto simp: checkPrevious_def Let_def split: if_splits sum.splits)

lemma stringPart_regular:
  "b \<noteq> CHR 0x5C \<Longrightarrow> tokenKind st \<noteq> StringClose \<Longrightarrow>
   stringPart jsonFile i (byteToString b) st =
     Inr (st\<lparr>tokenKind := StringRegular, isStringRegular := True\<rparr>)"
  by (simp add: stringPart_def)

lemma stringPart_escape_fails:
  assumes "length jsonFile \<le> i + 1 \<or> (jsonFile ! (i + 1) = CHR ''u'' \<and> length jsonFile < i + 6)"
  shows "stringPart jsonFile i (byteToString (CHR 0x5C)) st = Inl IndexOutOfRange"
proof (cases "length jsonFile \<le> i + 1")
  case True
  then show ?thesis by (simp add: stringPart_def byteAt_def byteToString_def)
next
  case False
  with assms have u: "jsonFile ! (i + 1) = CHR ''u''" and short: "length jsonFile < i + 6"
    by auto
  have "byteToString (CHR ''u'') = ''u''" by (simp add: byteToString_def)
  with False u short show ?thesis
    by (simp add: stringPart_def byteAt_def byteToString_def unicodeRun_fails)
qed

lemma classify_number:
  assumes "b = CHR ''-'' \<or> b \<in> set ''0123456789''"
  shows "classify (byteToString b) st = st\<lparr>tokenKind := Number, isNumber := True\<rparr>"
proof -
  from assms have ascii: "byteToString b = [b]"
    by (auto simp: byteToString_def)
  from assms have start: "[b] = ''-'' \<or> [b] = ''0'' \<or> [b] = ''1'' \<or> [b] = ''2'' \<or> [b] = ''3''
      \<or> [b] = ''4'' \<or> [b] = ''5'' \<or> [b] = ''6'' \<or> [b] = ''7'' \<or> [b] = ''8'' \<or> [b] = ''9''"
    by auto
  from assms have other: "b \<noteq> CHR ''{''" "b \<noteq> CHR ''}''" "b \<noteq> CHR ''[''" "b \<noteq> CHR '']''"
      "b \<noteq> CHR '':''" "b \<noteq> CHR '',''" "b \<noteq> CHR 0x22"
    by auto
  show ?thesis
    unfolding classify_def ascii using start other by simp
qed

section \<open>Strings of plain text\<close>



section \<open>Runs cut off by the end of the input\<close>

lemma scanToken_cut_off:
  assumes "i < length jsonFile"
    and "checkPrevious tokenArray (byteToString (jsonFile ! i))
           (initScan (byteToString (jsonFile ! i))) = Inr st1"
    and "cutOff jsonFile i st1"
  shows "scanToken jsonFile i tokenArray = Inl IndexOutOfRange"
proof -
  define c where "c = byteToString (jsonFile ! i)"
  note s1 = assms(2) [folded c_def]
  note step = scanToken_unfold [OF c_def s1]
  have flags: "isStringRegular st1 = False" "isNumber st1 = False"
    using checkPrevious_keeps(4,5) [OF s1] by (simp_all add: initScan_def)
  from assms(3) [unfolded cutOff_def] consider
    (number) "\<not> isString st1" "jsonFile ! i = CHR ''-'' \<or> jsonFile ! i \<in> set ''0123456789''"
      "set (drop (i + 1) jsonFile) \<subseteq> {c. validNextNumCharacter (byteToString c)}"
    | (opens) "\<not> isString st1" "jsonFile ! i = CHR 0x22"
      "CHR 0x22 \<notin> set (drop (i + 1) jsonFile)" "CHR 0x5C \<notin> set (drop (i + 1) jsonFile)"
    | (inside) "isString st1" "jsonFile ! i \<noteq> CHR 0x5C" "tokenKind st1 \<noteq> StringClose"
      "CHR 0x22 \<notin> set (drop (i + 1) jsonFile)" "CHR 0x5C \<notin> set (drop (i + 1) jsonFile)"
    | (escape) "isString st1" "jsonFile ! i = CHR 0x5C"
      "length jsonFile \<le> i + 1 \<or> (jsonFile ! (i + 1) = CHR ''u'' \<and> length jsonFile < i + 6)"
    by blast
  then have "scanToken jsonFile i tokenArray = Inl IndexOutOfRange"
  proof cases
    case number
    have "classify c st1 = st1\<lparr>tokenKind := Number, isNumber := True\<rparr>"
      unfolding c_def using number(2) by (rule classify_number)
    moreover have "numberRun jsonFile (i + 1) st = Inl IndexOutOfRange" for st
      using number(3) by (auto simp: numberRun_fails)
    ultimately show ?thesis
      unfolding step using number(1) flags by simp
  next
    case opens
    have "classify c st1 = st1\<lparr>tokenKind := StringRegular, isStringRegular := True\<rparr>"
      unfolding c_def using opens(2) by (simp add: classify_quote byteToString_def)
    moreover have "stringRun jsonFile (i + 1) st = Inl IndexOutOfRange" for st
      using opens(3,4) by (simp add: stringRun_fails)
    ultimately show ?thesis
      unfolding step using opens(1) by simp
  next
    case inside
    have "stringPart jsonFile i c st1 =
        Inr (st1\<lparr>tokenKind := StringRegular, isStringRegular := True\<rparr>)"
      unfolding c_def using inside(2,3) by (rule stringPart_regular)
    moreover have "stringRun jsonFile (i + 1) st = Inl IndexOutOfRange" for st
      using inside(4,5) by (simp add: stringRun_fails)
    ultimately show ?thesis
      unfolding step using inside(1) by simp
  next
    case escape
    have "stringPart jsonFile i c st1 = Inl IndexOutOfRange"
      unfolding c_def escape(2) using escape(3) by (rule stringPart_escape_fails)
    then show ?thesis
      unfolding step using escape(1) by simp
  qed
  then show ?thesis .
qed

text \<open>
  Claim C9: let the cursor \<open>i\<close> be inside the input, and \<open>st1\<close> the locals after the look
  at the previous token. If a number starts at \<open>i\<close> (outside a string) and only number
  characters follow to the end, or a plain run starts at \<open>i\<close> (an opening quote outside a
  string, or inside a string any character other than a backslash and the closing quote of
  an escape) and neither a quote nor a backslash follows, or a backslash stands at \<open>i\<close>
  inside a string with nothing after it, or with \<^verbatim>\<open>u\<close> after it and fewer than six bytes
  left, then the loop reads the input at or beyond its length: the result is the panic.
\<close>

theorem getTokens_loop_cut_off_by_end_of_input:
  assumes "i < length jsonFile"
    and "checkPrevious tokenArray (byteToString (jsonFile ! i))
           (initScan (byteToString (jsonFile ! i))) = Inr st1"
    and "(\<not> isString st1 \<and> (jsonFile ! i = CHR ''-'' \<or> jsonFile ! i \<in> set ''0123456789'')
          \<and> set (drop (i + 1) jsonFile) \<subseteq> {c. validNextNumCharacter (byteToString c)})
       \<or> (((\<not> isString st1 \<and> jsonFile ! i = CHR 0x22)
             \<or> (isString st1 \<and> jsonFile ! i \<noteq> CHR 0x5C \<and> tokenKind st1 \<noteq> StringClose))
          \<and> CHR 0x22 \<notin> set (drop (i + 1) jsonFile) \<and> CHR 0x5C \<notin> set (drop (i + 1) jsonFile))
       \<or> (isString st1 \<and> jsonFile ! i = CHR 0x5C
          \<and> (length jsonFile \<le> i + 1
              \<or> (jsonFile ! (i + 1) = CHR ''u'' \<and> length jsonFile < i + 6)))"
  shows "getTokens_loop jsonFile i tokenArray = Inl IndexOutOfRange"
proof -
  from assms(3) have "cutOff jsonFile i st1"
    unfolding cutOff_def .
  with assms(1,2) have "scanToken jsonFile i tokenArray = Inl IndexOutOfRange"
    by (rule scanToken_cut_off)
  with assms(1) show ?thesis
    by (simp add: getTokens_loop.simps [of jsonFile i])
qed

text \<open>
  The hypotheses of C9 hold at the number of \<^verbatim>\<open>[25\<close>, at the backslash of the five
  bytes \<^verbatim>\<open>"\u00\<close>, and at the start of the input \<^verbatim>\<open>7\<close>, a JSON text that is a bare
  number.
\<close>

theorem getTokens_loop_cut_off_by_end_of_input_witness:
  "(1::nat) < length ''[25''
   \<and> checkPrevious [\<lparr>content = ''['', kind = ArrayOpen\<rparr>] (byteToString (''[25'' ! 1))
         (initScan (byteToString (''[25'' ! 1))) = Inr (initScan ''2'')
   \<and> \<not> isString (initScan ''2'') \<and> ''[25'' ! 1 \<in> set ''0123456789''
   \<and> set (drop (1 + 1) ''[25'') \<subseteq> {c. validNextNumCharacter (byteToString c)}
   \<and> getTokens_loop ''[25'' 1 [\<lparr>content = ''['', kind = ArrayOpen\<rparr>] = Inl IndexOutOfRange
   \<and> (1::nat) < length [CHR 0x22, CHR 0x5C, CHR ''u'', CHR ''0'', CHR ''0'']
   \<and> checkPrevious [\<lparr>content = [CHR 0x22], kind = StringRegular\<rparr>]
         (byteToString ([CHR 0x22, CHR 0x5C, CHR ''u'', CHR ''0'', CHR ''0''] ! 1))
         (initScan (byteToString ([CHR 0x22, CHR 0x5C, CHR ''u'', CHR ''0'', CHR ''0''] ! 1)))
       = Inr ((initScan [CHR 0x5C])\<lparr>isString := True\<rparr>)
   \<and> length [CHR 0x22, CHR 0x5C, CHR ''u'', CHR ''0'', CHR ''0''] < 1 + 6
   \<and> getTokens_loop [CHR 0x22, CHR 0x5C, CHR ''u'', CHR ''0'', CHR ''0''] 1
         [\<lparr>content = [CHR 0x22], kind = StringRegular\<rparr>] = Inl IndexOutOfRange
   \<and> (0::nat) < length ''7''
   \<and> checkPrevious [] (byteToString (''7'' ! 0)) (initScan (byteToString (''7'' ! 0)))
       = Inr (initScan ''7'')
   \<and> set (drop (0 + 1) ''7'') \<subseteq> {c. validNextNumCharacter (byteToString c)}
   \<and> getTokens ''7'' = Inl IndexOutOfRange"
proof -
  let ?n = "''[25''" and ?e = "[CHR 0x22, CHR 0x5C, CHR ''u'', CHR ''0'', CHR ''0'']"
  let ?open = "\<lparr>content = ''['', kind = ArrayOpen\<rparr>"
  let ?quote = "\<lparr>content = [CHR 0x22], kind = StringRegular\<rparr>"
  have n1: "(1::nat) < length ?n" by simp
  have n2: "checkPrevious [?open] (byteToString (?n ! 1)) (initScan (byteToString (?n ! 1)))
      = Inr (initScan ''2'')"
    by code_simp
  have n3: "\<not> isString (initScan ''2'')" by (simp add: initScan_def)
  have n4: "?n ! 1 \<in> set ''0123456789''" by simp
  have n5: "set (drop (1 + 1) ?n) \<subseteq> {c. validNextNumCharacter (byteToString c)}"
    by (simp add: validNextNumCharacter_def byteToString_def)
  from n3 n4 n5 have n6:
    "(\<not> isString (initScan ''2'') \<and> (?n ! 1 = CHR ''-'' \<or> ?n ! 1 \<in> set ''0123456789'')
          \<and> set (drop (1 + 1) ?n) \<subseteq> {c. validNextNumCharacter (byteToString c)})
       \<or> (((\<not> isString (initScan ''2'') \<and> ?n ! 1 = CHR 0x22)
             \<or> (isString (initScan ''2'') \<and> ?n ! 1 \<noteq> CHR 0x5C
                \<and> tokenKind (initScan ''2'') \<noteq> StringClose))
          \<and> CHR 0x22 \<notin> set (drop (1 + 1) ?n) \<and> CHR 0x5C \<notin> set (drop (1 + 1) ?n))
       \<or> (isString (initScan ''2'') \<and> ?n ! 1 = CHR 0x5C
          \<and> (length ?n \<le> 1 + 1 \<or> (?n ! (1 + 1) = CHR ''u'' \<and> length ?n < 1 + 6)))"
    by blast
  note number = getTokens_loop_cut_off_by_end_of_input [OF n1 n2 n6]
  let ?st = "(initScan [CHR 0x5C])\<lparr>isString := True\<rparr>"
  have e1: "(1::nat) < length ?e" by simp
  have e2: "checkPrevious [?quote] (byteToString (?e ! 1)) (initScan (byteToString (?e ! 1)))
      = Inr ?st"
    by code_simp
  have e3: "isString ?st" by simp
  have e4: "?e ! 1 = CHR 0x5C" by simp
  have e5: "?e ! (1 + 1) = CHR ''u''" by simp
  have e6: "length ?e < 1 + 6" by simp
  from e3 e4 e5 e6 have e7:
    "(\<not> isString ?st \<and> (?e ! 1 = CHR ''-'' \<or> ?e ! 1 \<in> set ''0123456789'')
          \<and> set (drop (1 + 1) ?e) \<subseteq> {c. validNextNumCharacter (byteToString c)})
       \<or> (((\<not> isString ?st \<and> ?e ! 1 = CHR 0x22)
             \<or> (isString ?st \<and> ?e ! 1 \<noteq> CHR 0x5C \<and> tokenKind ?st \<noteq> StringClose))
          \<and> CHR 0x22 \<notin> set (drop (1 + 1) ?e) \<and> CHR 0x5C \<notin> set (drop (1 + 1) ?e))
       \<or> (isString ?st \<and> ?e ! 1 = CHR 0x5C
          \<and> (length ?e \<le> 1 + 1 \<or> (?e ! (1 + 1) = CHR ''u'' \<and> length ?e < 1 + 6)))"
    by blast
  note escape = getTokens_loop_cut_off_by_end_of_input [OF e1 e2 e7]
  let ?b = "''7''"
  have b1: "(0::nat) < length ?b" by simp
  have b2: "checkPrevious [] (byteToString (?b ! 0)) (initScan (byteToString (?b ! 0)))
      = Inr (initScan ''7'')"
    by code_simp
  have b3: "\<not> isString (initScan ''7'')" by (simp add: initScan_def)
  have b4: "?b ! 0 \<in> set ''0123456789''" by simp
  have b5: "set (drop (0 + 1) ?b) \<subseteq> {c. validNextNumCharacter (byteToString c)}"
    by simp
  from b3 b4 b5 have b6:
    "(\<not> isString (initScan ''7'') \<and> (?b ! 0 = CHR ''-'' \<or> ?b ! 0 \<in> set ''0123456789'')
          \<and> set (drop (0 + 1) ?b) \<subseteq> {c. validNextNumCharacter (byteToString c)})
       \<or> (((\<not> isString (initScan ''7'') \<and> ?b ! 0 = CHR 0x22)
             \<or> (isString (initScan ''7'') \<and> ?b ! 0 \<noteq> CHR 0x5C
                \<and> tokenKind (initScan ''7'') \<noteq> StringClose))
          \<and> CHR 0x22 \<notin> set (drop (0 + 1) ?b) \<and> CHR 0x5C \<notin> set (drop (0 + 1) ?b))
       \<or> (isString (initScan ''7'') \<and> ?b ! 0 = CHR 0x5C
          \<and> (length ?b \<le> 0 + 1 \<or> (?b ! (0 + 1) = CHR ''u'' \<and> length ?b < 0 + 6)))"
    by blast
  from getTokens_loop_cut_off_by_end_of_input [OF b1 b2 b6]
  have bare: "getTokens ?b = Inl IndexOutOfRange"
    by (simp add: getTokens_def)
  from n1 n2 n3 n4 n5 number e1 e2 e6 escape b1 b2 b5 bare show ?thesis
    by (intro conjI)
qed

section \<open>Escape sequences\<close>

lemma runeCount_Nil: "runeCount [] = 0"
  by (simp add: runeCount.simps [of "[]"])

lemma runeCount_chunk:
  assumes "decodeRune (r @ t) = (r, length r)" and "r \<noteq> []"
  shows "runeCount (r @ t) = 1 + runeCount t"
  using assms by (simp add: runeCount.simps [of "r @ t"])

lemma decodeRune_byteToString:
  "decodeRune (byteToString b @ t) = (byteToString b, length (byteToString b))"
proof (cases "(of_char b :: nat) < 0x80")
  case True
  then show ?thesis by (simp add: byteToString_def decodeRune_ascii)
next
  case False
  let ?x = "of_char b :: nat"
  let ?b0 = "char_of (0xC0 + ?x div 64) :: char" and ?b1 = "char_of (0x80 + ?x mod 64) :: char"
  have x: "0x80 \<le> ?x" "?x < 256"
    using False nat_of_char_less_256 [of b] by simp_all
  then have "?x div 64 = 2 \<or> ?x div 64 = 3" by linarith
  then have b0: "(of_char ?b0 :: nat) = 0xC2 \<or> (of_char ?b0 :: nat) = 0xC3"
    by (auto simp: of_char_of)
  have "?x mod 64 < 64" by simp
  then have b1: "(of_char ?b1 :: nat) = 0x80 + ?x mod 64"
    by (simp add: of_char_of)
  then have cont: "isCont ?b1" by (simp add: isCont_def)
  from b0 have "decodeRune (?b0 # ?b1 # t) = ([?b0, ?b1], 2)"
    using cont by (subst decodeRune_two) auto
  with False show ?thesis by (simp add: byteToString_def)
qed

lemma runeCount_byteToString: "runeCount (byteToString b @ t) = 1 + runeCount t"
  using decodeRune_byteToString [of b t] by (rule runeCount_chunk) simp

lemma runeCount_bytes: "runeCount (concat (map byteToString bs) @ t) = length bs + runeCount t"
  by (induction bs) (simp_all add: runeCount_byteToString)

lemma runeCount_ascii: "\<forall>c \<in> set s. (of_char c :: nat) < 0x80 \<Longrightarrow> runeCount s = length s"
proof (induction s)
  case Nil
  then show ?case by (simp add: runeCount_Nil)
next
  case (Cons c s)
  then have "decodeRune ([c] @ s) = ([c], length [c])"
    by (simp add: decodeRune_ascii)
  then have "runeCount ([c] @ s) = 1 + runeCount s"
    by (rule runeCount_chunk) simp
  with Cons show ?case by simp
qed

lemma hd_byteToString_u: "(hd (byteToString b) = CHR ''u'') = (b = CHR ''u'')"
proof (cases "(of_char b :: nat) < 0x80")
  case True
  then show ?thesis by (simp add: byteToString_def)
next
  case False
  let ?x = "of_char b :: nat"
  have x: "0x80 \<le> ?x" "?x < 256"
    using False nat_of_char_less_256 [of b] by simp_all
  then have "?x div 64 = 2 \<or> ?x div 64 = 3" by linarith
  then have "(of_char (char_of (0xC0 + ?x div 64) :: char) :: nat) \<noteq> of_char (CHR ''u'')"
    by (auto simp: of_char_of)
  then have "(char_of (0xC0 + ?x div 64) :: char) \<noteq> CHR ''u''" by metis
  moreover have "b \<noteq> CHR ''u''" using False by auto
  ultimately show ?thesis using False by (simp add: byteToString_def)
qed

lemma scanToken_InrE:
  assumes "scanToken jsonFile i tokenArray = Inr st"
  obtains st1 st2 st3 where
    "checkPrevious tokenArray (byteToString (jsonFile ! i))
       (initScan (byteToString (jsonFile ! i))) = Inr st1"
    "(if \<not> isString st1 then Inr (classify (byteToString (jsonFile ! i)) st1)
      else stringPart jsonFile i (byteToString (jsonFile ! i)) st1) = Inr st2"
    "(if isStringRegular st2 then stringRun jsonFile (i + 1) st2 else Inr st2) = Inr st3"
    "(if isNumber st3 then numberRun jsonFile (i + 1) st3 else Inr st3) = Inr st"
proof -
  let ?c = "byteToString (jsonFile ! i)"
  from assms obtain st1 where
    s1: "checkPrevious tokenArray ?c (initScan ?c) = Inr st1"
    by (cases "checkPrevious tokenArray ?c (initScan ?c)") (simp_all add: scanToken_def Let_def)
  let ?p2 = "if \<not> isString st1 then Inr (classify ?c st1) else stringPart jsonFile i ?c st1"
  from assms s1 obtain st2 where s2: "?p2 = Inr st2"
    by (cases ?p2) (simp_all add: scanToken_def Let_def)
  let ?p3 = "if isStringRegular st2 then stringRun jsonFile (i + 1) st2 else Inr st2"
  from assms s1 s2 obtain st3 where s3: "?p3 = Inr st3"
    by (cases ?p3) (simp_all add: scanToken_def Let_def)
  from assms s1 s2 s3 have
    s4: "(if isNumber st3 then numberRun jsonFile (i + 1) st3 else Inr st3) = Inr st"
    by (simp add: scanToken_def Let_def)
  from s1 s2 s3 s4 show ?thesis by (rule that)
qed

lemma unicodeRun_result:
  assumes "unicodeRun jsonFile j stop st = Inr st'" and "j \<le> stop"
  shows "\<exists>bytes. tokenContent st' = tokenContent st @ concat (map byteToString bytes)
      \<and> length bytes = stop - j \<and> (j < stop \<longrightarrow> hd bytes = jsonFile ! j)
      \<and> tokenKind st' = tokenKind st \<and> isToken st' = isToken st
      \<and> isStringRegular st' = isStringRegular st \<and> isNumber st' = isNumber st"
  using assms
proof (induction jsonFile j stop st rule: unicodeRun.induct)
  case (1 jsonFile j stop st)
  show ?case
  proof (cases "j < stop")
    case False
    with "1.prems" have "st' = st" by (simp add: unicodeRun.simps [of jsonFile j])
    with False show ?thesis by simp
  next
    case True
    with "1.prems" have lt: "j < length jsonFile"
      by (auto simp: unicodeRun.simps [of jsonFile j] split: if_splits)
    let ?st = "st\<lparr>tokenContent := tokenContent st @ byteToString (jsonFile ! j),
                    tokenLength := tokenLength st + 1\<rparr>"
    from True lt "1.prems" have run: "unicodeRun jsonFile (j + 1) stop ?st = Inr st'"
      by (simp add: unicodeRun.simps [of jsonFile j])
    from True have "j + 1 \<le> stop" by simp
    with "1.IH" [OF True lt run] obtain bytes where
      b: "tokenContent st' = tokenContent ?st @ concat (map byteToString bytes)"
        "length bytes = stop - (j + 1)"
        "tokenKind st' = tokenKind ?st" "isToken st' = isToken ?st"
        "isStringRegular st' = isStringRegular ?st" "isNumber st' = isNumber ?st"
      by blast
    have "tokenContent st' = tokenContent st @ concat (map byteToString (jsonFile ! j # bytes))"
      using b(1) by simp
    moreover have "length (jsonFile ! j # bytes) = stop - j"
      using b(2) True by simp
    ultimately show ?thesis
      using b(3-6) by (intro exI [of _ "jsonFile ! j # bytes"]) simp
  qed
qed

lemma stringRun_keeps:
  "stringRun jsonFile j st = Inr st' \<Longrightarrow>
   tokenKind st' = tokenKind st \<and> isToken st' = isToken st \<and> isNumber st' = isNumber st"
proof (induction jsonFile j st rule: stringRun.induct)
  case (1 jsonFile j st)
  let ?c = "byteToString (jsonFile ! j)"
  let ?st = "st\<lparr>tokenContent := tokenContent st @ ?c, tokenLength := tokenLength st + 1\<rparr>"
  show ?case
  proof (cases "j < length jsonFile \<and> ?c \<noteq> [CHR 0x22] \<and> ?c \<noteq> [CHR 0x5C]")
    case True
    with "1.prems" have "stringRun jsonFile (j + 1) ?st = Inr st'"
      by (simp add: stringRun.simps [of jsonFile j])
    with True "1.IH" have "tokenKind st' = tokenKind ?st \<and> isToken st' = isToken ?st
        \<and> isNumber st' = isNumber ?st" by blast
    then show ?thesis by simp
  next
    case False
    with "1.prems" show ?thesis
      by (auto simp: stringRun.simps [of jsonFile j] split: if_splits)
  qed
qed

lemma numberRun_keeps:
  "numberRun jsonFile j st = Inr st' \<Longrightarrow>
   tokenKind st' = tokenKind st \<and> isToken st' = isToken st"
proof (induction jsonFile j st rule: numberRun.induct)
  case (1 jsonFile j st)
  let ?c = "byteToString (jsonFile ! j)"
  let ?st = "st\<lparr>tokenContent := tokenContent st @ ?c, tokenLength := tokenLength st + 1\<rparr>"
  show ?case
  proof (cases "j < length jsonFile \<and> validNextNumCharacter ?c")
    case True
    with "1.prems" have "numberRun jsonFile (j + 1) ?st = Inr st'"
      by (simp add: numberRun.simps [of jsonFile j])
    with True "1.IH" have "tokenKind st' = tokenKind ?st \<and> isToken st' = isToken ?st" by blast
    then show ?thesis by simp
  next
    case False
    with "1.prems" show ?thesis
      by (auto simp: numberRun.simps [of jsonFile j] split: if_splits)
  qed
qed

lemma byteToString_u: "(byteToString b = ''u'') = (b = CHR ''u'')"
  by (auto simp: byteToString_def)

lemma stringPart_escaped:
  assumes "stringPart jsonFile i c st = Inr st2"
    and "tokenKind st2 = StringEscaped" and "tokenKind st \<noteq> StringEscaped"
    and "tokenContent st = c"
  shows "escapeContent (tokenContent st2) \<and> isToken st2 = isToken st
      \<and> isStringRegular st2 = isStringRegular st \<and> isNumber st2 = isNumber st"
proof (cases "c = [CHR 0x5C]")
  case False
  with assms(1,2,3) show ?thesis
    by (auto simp: stringPart_def kind_defs split: if_splits)
next
  case True
  with assms(1) obtain nextByte where nb: "byteAt jsonFile (i + 1) = Inr nextByte"
    by (cases "byteAt jsonFile (i + 1)") (simp_all add: stringPart_def)
  then have at: "nextByte = jsonFile ! (i + 1)"
    by (simp add: byteAt_def split: if_splits)
  show ?thesis
  proof (cases "nextByte = CHR ''u''")
    case u: True
    with True nb assms(1) have
      "unicodeRun jsonFile (i + 1) (i + 6) (st\<lparr>tokenKind := StringEscaped\<rparr>) = Inr st2"
      by (simp add: stringPart_def byteToString_u)
    from unicodeRun_result [OF this] obtain bytes where
      b: "tokenContent st2 = tokenContent (st\<lparr>tokenKind := StringEscaped\<rparr>)
            @ concat (map byteToString bytes)"
        "length bytes = i + 6 - (i + 1)" "hd bytes = jsonFile ! (i + 1)"
        "isToken st2 = isToken st" "isStringRegular st2 = isStringRegular st"
        "isNumber st2 = isNumber st"
      by auto
    from b(1) True assms(4) have "tokenContent st2 = CHR 0x5C # concat (map byteToString bytes)"
      by simp
    moreover from b(2,3) u at have "length bytes = (if hd bytes = CHR ''u'' then 5 else 1)"
      by simp
    ultimately have "escapeContent (tokenContent st2)"
      unfolding escapeContent_def by blast
    with b(4-6) show ?thesis by simp
  next
    case other: False
    with True nb assms(1) have
      st2: "st2 = st\<lparr>tokenKind := StringEscaped,
                      tokenContent := tokenContent st @ byteToString nextByte,
                      tokenLength := tokenLength st + 1\<rparr>"
      by (simp add: stringPart_def byteToString_u)
    with True assms(4) have
      "tokenContent st2 = CHR 0x5C # concat (map byteToString [nextByte])"
      by simp
    moreover from other have "length [nextByte] = (if hd [nextByte] = CHR ''u'' then 5 else 1)"
      by simp
    ultimately have "escapeContent (tokenContent st2)"
      unfolding escapeContent_def by blast
    with st2 show ?thesis by simp
  qed
qed

lemma checkPrevious_kind:
  "checkPrevious tokenArray c st = Inr st1 \<Longrightarrow> tokenKind st \<noteq> StringEscaped \<Longrightarrow>
   tokenKind st1 \<noteq> StringEscaped"
  by (auto simp: checkPrevious_def Let_def kind_defs split: if_splits sum.splits)

lemma classify_kind:
  "tokenKind st \<noteq> StringEscaped \<Longrightarrow> tokenKind (classify c st) \<noteq> StringEscaped"
  by (simp add: classify_def kind_defs)

lemma scanToken_escaped:
  assumes "scanToken jsonFile i tokenArray = Inr st" and "tokenKind st = StringEscaped"
  shows "escapeContent (tokenContent st)"
proof -
  let ?c = "byteToString (jsonFile ! i)"
  from assms(1) obtain st1 st2 st3 where
    s1: "checkPrevious tokenArray ?c (initScan ?c) = Inr st1" and
    s2: "(if \<not> isString st1 then Inr (classify ?c st1)
          else stringPart jsonFile i ?c st1) = Inr st2" and
    s3: "(if isStringRegular st2 then stringRun jsonFile (i + 1) st2 else Inr st2) = Inr st3" and
    s4: "(if isNumber st3 then numberRun jsonFile (i + 1) st3 else Inr st3) = Inr st"
    by (rule scanToken_InrE)
  have k1: "tokenKind st1 \<noteq> StringEscaped"
    using s1 by (rule checkPrevious_kind) (simp add: initScan_def kind_defs)
  have f1: "tokenContent st1 = ?c" "isStringRegular st1 = False" "isNumber st1 = False"
    using checkPrevious_keeps(1,4,5) [OF s1] by (simp_all add: initScan_def)
  have k3: "tokenKind st3 = StringEscaped"
    using s4 assms(2) numberRun_keeps [of jsonFile "i + 1" st3 st]
    by (cases "isNumber st3") auto
  have k2: "tokenKind st2 = StringEscaped"
    using s3 k3 stringRun_keeps [of jsonFile "i + 1" st2 st3]
    by (cases "isStringRegular st2") auto
  have inside: "isString st1"
    using s2 k2 classify_kind [OF k1, of ?c] by (cases "isString st1") auto
  with s2 have "stringPart jsonFile i ?c st1 = Inr st2" by simp
  from stringPart_escaped [OF this k2 k1 f1(1)] f1(2,3)
  have shape: "escapeContent (tokenContent st2)" and flags: "\<not> isStringRegular st2" "\<not> isNumber st2"
    by simp_all
  from s3 flags(1) have "st3 = st2" by simp
  with s4 flags(2) have "st = st2" by simp
  with shape show ?thesis by simp
qed

lemma getTokens_loop_escaped:
  assumes "getTokens_loop jsonFile i tokenArray = Inr tokens"
    and "\<forall>t \<in> set tokenArray. kind t = StringEscaped \<longrightarrow> escapeContent (content t)"
  shows "\<forall>t \<in> set tokens. kind t = StringEscaped \<longrightarrow> escapeContent (content t)"
  using assms
proof (induction jsonFile i tokenArray rule: getTokens_loop.induct)
  case (1 jsonFile i tokenArray)
  show ?case
  proof (cases "i < length jsonFile")
    case False
    with "1.prems" show ?thesis by (simp add: getTokens_loop.simps [of jsonFile i])
  next
    case True
    with "1.prems"(1) obtain st where
      st: "scanToken jsonFile i tokenArray = Inr st"
      by (cases "scanToken jsonFile i tokenArray") (simp_all add: getTokens_loop.simps [of jsonFile i])
    with True "1.prems"(1) have
      rest: "getTokens_loop jsonFile (i + tokenLength st) (appendToken tokenArray st) = Inr tokens"
      by (simp add: getTokens_loop.simps [of jsonFile i])
    have "\<forall>t \<in> set (appendToken tokenArray st).
        kind t = StringEscaped \<longrightarrow> escapeContent (content t)"
      using "1.prems"(2) scanToken_escaped [OF st] by (auto simp: appendToken_def)
    with "1.IH" [OF True st rest] show ?thesis .
  qed
qed

lemma escapeContent_shape:
  assumes "escapeContent s"
  shows "hd s = CHR 0x5C" and "runeCount s = (if s ! 1 = CHR ''u'' then 6 else 2)"
proof -
  from assms obtain bytes where
    s: "s = CHR 0x5C # concat (map byteToString bytes)" and
    n: "length bytes = (if hd bytes = CHR ''u'' then 5 else 1)"
    unfolding escapeContent_def by blast
  from s show "hd s = CHR 0x5C" by simp
  from n obtain b rest where bytes: "bytes = b # rest"
    by (cases bytes) (auto split: if_splits)
  have "decodeRune ([CHR 0x5C] @ concat (map byteToString bytes)) = ([CHR 0x5C], length [CHR 0x5C])"
    by (simp add: decodeRune_ascii)
  then have "runeCount ([CHR 0x5C] @ concat (map byteToString bytes))
      = 1 + runeCount (concat (map byteToString bytes))"
    by (rule runeCount_chunk) simp
  also have "\<dots> = 1 + length bytes"
    using runeCount_bytes [of bytes "[]"] by (simp add: runeCount_Nil)
  finally have count: "runeCount s = 1 + length bytes"
    using s by simp
  have "byteToString b \<noteq> []"
    by (simp add: byteToString_def)
  then have "s ! 1 = hd (byteToString b)"
    using s bytes by (simp add: nth_append hd_conv_nth)
  then have "(s ! 1 = CHR ''u'') = (hd bytes = CHR ''u'')"
    using bytes by (simp add: hd_byteToString_u)
  with count n show "runeCount s = (if s ! 1 = CHR ''u'' then 6 else 2)"
    by simp
qed

text \<open>
  Claim C7: the eight bytes \<^verbatim>\<open>"\u0041"\<close> give the three tokens StringRegular(\<^verbatim>\<open>"\<close>),
  StringEscaped(\<^verbatim>\<open>\u0041\<close>), StringClose(\<^verbatim>\<open>"\<close>); and in every token sequence that
  \<open>getTokens\<close> returns, the content of a StringEscaped token begins with a backslash and has
  six characters when its second character is \<^verbatim>\<open>u\<close> and two otherwise. Characters are
  counted as \<^verbatim>\<open>utf8.RuneCountInString\<close> counts them; when the content is ASCII, as every
  escape of a JSON text is, the number of bytes \<^verbatim>\<open>len(content)\<close> is the same.
\<close>

theorem escaped_token_content:
  "getTokens [CHR 0x22, CHR 0x5C, CHR ''u'', CHR ''0'', CHR ''0'', CHR ''4'', CHR ''1'', CHR 0x22] =
     Inr [\<lparr>content = [CHR 0x22], kind = StringRegular\<rparr>,
          \<lparr>content = [CHR 0x5C, CHR ''u'', CHR ''0'', CHR ''0'', CHR ''4'', CHR ''1''],
           kind = StringEscaped\<rparr>,
          \<lparr>content = [CHR 0x22], kind = StringClose\<rparr>]
   \<and> (getTokens jsonFile = Inr tokenArray \<longrightarrow> token \<in> set tokenArray \<longrightarrow>
        kind token = StringEscaped \<longrightarrow>
          hd (content token) = CHR 0x5C
          \<and> runeCount (content token) = (if content token ! 1 = CHR ''u'' then 6 else 2)
          \<and> (set (content token) \<subseteq> {c. (of_char c :: nat) < 0x80} \<longrightarrow>
               length (content token) = (if content token ! 1 = CHR ''u'' then 6 else 2)))"
proof -
  have "getTokens [CHR 0x22, CHR 0x5C, CHR ''u'', CHR ''0'', CHR ''0'', CHR ''4'', CHR ''1'', CHR 0x22] =
     Inr [\<lparr>content = [CHR 0x22], kind = StringRegular\<rparr>,
          \<lparr>content = [CHR 0x5C, CHR ''u'', CHR ''0'', CHR ''0'', CHR ''4'', CHR ''1''],
           kind = StringEscaped\<rparr>,
          \<lparr>content = [CHR 0x22], kind = StringClose\<rparr>]"
    by code_simp
  moreover have "hd (content token) = CHR 0x5C
      \<and> runeCount (content token) = (if content token ! 1 = CHR ''u'' then 6 else 2)
      \<and> (set (content token) \<subseteq> {c. (of_char c :: nat) < 0x80} \<longrightarrow>
           length (content token) = (if content token ! 1 = CHR ''u'' then 6 else 2))"
    if run: "getTokens jsonFile = Inr tokenArray" and mem: "token \<in> set tokenArray"
      and esc: "kind token = StringEscaped"
  proof -
    from run have "getTokens_loop jsonFile 0 [] = Inr tokenArray"
      by (simp add: getTokens_def)
    from getTokens_loop_escaped [OF this] mem esc have shape: "escapeContent (content token)"
      by simp
    note facts = escapeContent_shape [OF shape]
    have "length (content token) = runeCount (content token)"
      if ascii: "set (content token) \<subseteq> {c. (of_char c :: nat) < 0x80}"
    proof -
      from ascii have "\<forall>c \<in> set (content token). (of_char c :: nat) < 0x80"
        by blast
      then show ?thesis by (rule runeCount_ascii [symmetric])
    qed
    with facts show ?thesis by simp
  qed
  ultimately show ?thesis by blast
qed

text \<open>The general part of C7 at the escape of the input \<^verbatim>\<open>"\n" \<close>.\<close>

theorem escaped_token_content_witness:
  "getTokens [CHR 0x22, CHR 0x5C, CHR ''n'', CHR 0x22, CHR '' ''] =
     Inr [\<lparr>content = [CHR 0x22], kind = StringRegular\<rparr>,
          \<lparr>content = [CHR 0x5C, CHR ''n''], kind = StringEscaped\<rparr>,
          \<lparr>content = [CHR 0x22], kind = StringClose\<rparr>]
   \<and> kind \<lparr>content = [CHR 0x5C, CHR ''n''], kind = StringEscaped\<rparr> = StringEscaped
   \<and> hd (content \<lparr>content = [CHR 0x5C, CHR ''n''], kind = StringEscaped\<rparr>) = CHR 0x5C
   \<and> runeCount (content \<lparr>content = [CHR 0x5C, CHR ''n''], kind = StringEscaped\<rparr>) = 2
   \<and> length (content \<lparr>content = [CHR 0x5C, CHR ''n''], kind = StringEscaped\<rparr>) = 2"
proof -
  let ?input = "[CHR 0x22, CHR 0x5C, CHR ''n'', CHR 0x22, CHR '' '']"
  let ?esc = "\<lparr>content = [CHR 0x5C, CHR ''n''], kind = StringEscaped\<rparr>"
  let ?tokens = "[\<lparr>content = [CHR 0x22], kind = StringRegular\<rparr>, ?esc,
                  \<lparr>content = [CHR 0x22], kind = StringClose\<rparr>]"
  have run: "getTokens ?input = Inr ?tokens"
    by code_simp
  have mem: "?esc \<in> set ?tokens"
    by simp
  have esc: "kind ?esc = StringEscaped"
    by simp
  have ascii: "set (content ?esc) \<subseteq> {c. (of_char c :: nat) < 0x80}"
    by simp
  have second: "content ?esc ! 1 \<noteq> CHR ''u''"
    by simp
  from escaped_token_content [of ?input ?tokens ?esc] run mem esc
  have "hd (content ?esc) = CHR 0x5C
      \<and> runeCount (content ?esc) = (if content ?esc ! 1 = CHR ''u'' then 6 else 2)
      \<and> (set (content ?esc) \<subseteq> {c. (of_char c :: nat) < 0x80} \<longrightarrow>
           length (content ?esc) = (if content ?esc ! 1 = CHR ''u'' then 6 else 2))"
    by blast
  with ascii second have "hd (content ?esc) = CHR 0x5C \<and> runeCount (content ?esc) = 2
      \<and> length (content ?esc) = 2"
    by simp
  with run esc show ?thesis by blast
qed

section \<open>When the tokenizer returns\<close>


















end
